theory Spec2Isabelle
  imports Main "HOL-Library.Word"
begin

unbundle bit_operations_syntax

section \<open>The wavetable oscillator of Oscil.h\<close>

text \<open>
  The class \<^verbatim>\<open>Oscil<NUM_TABLE_CELLS, UPDATE_RATE>\<close> is written for avr-gcc
  (\<^verbatim>\<open>util/atomic.h\<close>, \<^verbatim>\<open>prog_char\<close>, \<^verbatim>\<open>pgm_read_byte_near\<close>), where
  \<^verbatim>\<open>unsigned int\<close> has 16 bits, \<^verbatim>\<open>long\<close> and \<^verbatim>\<open>unsigned long\<close> have 32 bits and
  \<^verbatim>\<open>char\<close> has 8 bits. The two template parameters are \<^verbatim>\<open>unsigned int\<close> and are
  passed to every operation as explicit arguments. Member functions take the object
  and return it updated.
\<close>

type_synonym u16 = "16 word"
type_synonym u32 = "32 word"
type_synonym s32 = "32 word"
type_synonym prog_char = "8 word"

text \<open>\<^verbatim>\<open>#define F_BITS 16\<close> and \<^verbatim>\<open>#define F_BITS_AS_MULTIPLIER 65536\<close>.\<close>

definition F_BITS :: nat where
  "F_BITS = 16"

definition F_BITS_AS_MULTIPLIER :: nat where
  "F_BITS_AS_MULTIPLIER = 65536"

text \<open>
  The private members. The pointer \<^verbatim>\<open>prog_char * table\<close> is modelled by the array
  in program memory that it points to.
\<close>

record oscil =
  phase_fractional :: u32
  phase_increment_fractional :: u32
  table :: "prog_char list"

text \<open>
  \<^verbatim>\<open>pgm_read_byte_near(table + i)\<close> of avr-libc reads the byte at offset \<open>i\<close> of
  the array. A read outside the array has no defined value: it is \<open>None\<close>.
\<close>

definition pgm_read_byte_near :: "prog_char list \<Rightarrow> nat \<Rightarrow> prog_char option" where
  "pgm_read_byte_near tbl i = (if i < length tbl then Some (tbl ! i) else None)"

subsection \<open>Sample production\<close>

text \<open>\<^verbatim>\<open>phase_fractional += phase_increment_fractional;\<close>\<close>

definition incrementPhase :: "oscil \<Rightarrow> oscil" where
  "incrementPhase s =
     s\<lparr>phase_fractional := phase_fractional s + phase_increment_fractional s\<rparr>"

text \<open>
  \<^verbatim>\<open>(phase_fractional >> F_BITS) & (NUM_TABLE_CELLS - 1)\<close>: the subtraction is
  done in \<^verbatim>\<open>unsigned int\<close>, its result is widened to \<^verbatim>\<open>unsigned long\<close> for the
  conjunction.
\<close>

definition readTable_index :: "u16 \<Rightarrow> oscil \<Rightarrow> u32" where
  "readTable_index NUM_TABLE_CELLS s =
     drop_bit F_BITS (phase_fractional s) AND ucast (NUM_TABLE_CELLS - 1)"

definition readTable :: "u16 \<Rightarrow> oscil \<Rightarrow> prog_char option" where
  "readTable NUM_TABLE_CELLS s =
     pgm_read_byte_near (table s) (unat (readTable_index NUM_TABLE_CELLS s))"

text \<open>\<^verbatim>\<open>char next() { incrementPhase(); return readTable(); }\<close>\<close>

definition oscil_next :: "u16 \<Rightarrow> oscil \<Rightarrow> (prog_char \<times> oscil) option" where
  "oscil_next NUM_TABLE_CELLS s =
     (let s' = incrementPhase s
      in case readTable NUM_TABLE_CELLS s' of
           None \<Rightarrow> None
         | Some c \<Rightarrow> Some (c, s'))"

text \<open>
  \<^verbatim>\<open>phMod(long phmod_proportion)\<close>. In
  \<^verbatim>\<open>phase_fractional + (phmod_proportion * NUM_TABLE_CELLS)\<close> the table length is
  converted to \<^verbatim>\<open>long\<close> and the product is a product of two \<^verbatim>\<open>long\<close>s; it is
  then converted to \<^verbatim>\<open>unsigned long\<close> for the sum. The product is modelled by the
  two's complement product that the AVR's 32-bit multiplication delivers, which is
  the product of the integers whenever that fits into a \<^verbatim>\<open>long\<close>
  (lemma \<open>phMod_product_exact\<close> below); C++ itself leaves the other products
  undefined.
\<close>

definition phMod_index :: "u16 \<Rightarrow> oscil \<Rightarrow> s32 \<Rightarrow> u32" where
  "phMod_index NUM_TABLE_CELLS s phmod_proportion =
     drop_bit F_BITS (phase_fractional s + phmod_proportion * ucast NUM_TABLE_CELLS)
       AND ucast (NUM_TABLE_CELLS - 1)"

definition phMod :: "u16 \<Rightarrow> oscil \<Rightarrow> s32 \<Rightarrow> (prog_char \<times> oscil) option" where
  "phMod NUM_TABLE_CELLS s phmod_proportion =
     (let s' = incrementPhase s
      in case pgm_read_byte_near (table s')
                (unat (phMod_index NUM_TABLE_CELLS s' phmod_proportion)) of
           None \<Rightarrow> None
         | Some c \<Rightarrow> Some (c, s'))"

text \<open>
  \<^verbatim>\<open>atIndex(unsigned int index)\<close>: the conjunction is done in \<^verbatim>\<open>unsigned int\<close>.
  No member is assigned.
\<close>

definition atIndex_index :: "u16 \<Rightarrow> u16 \<Rightarrow> u16" where
  "atIndex_index NUM_TABLE_CELLS index = index AND (NUM_TABLE_CELLS - 1)"

definition atIndex :: "u16 \<Rightarrow> oscil \<Rightarrow> u16 \<Rightarrow> (prog_char \<times> oscil) option" where
  "atIndex NUM_TABLE_CELLS s index =
     (case pgm_read_byte_near (table s) (unat (atIndex_index NUM_TABLE_CELLS index)) of
        None \<Rightarrow> None
      | Some c \<Rightarrow> Some (c, s))"

subsection \<open>Setting the frequency\<close>

text \<open>
  The assignments to \<^verbatim>\<open>phase_increment_fractional\<close> stand in an
  \<^verbatim>\<open>ATOMIC_BLOCK(ATOMIC_RESTORESTATE)\<close>; the model is sequential, so the block is
  its body. A division by an \<^verbatim>\<open>UPDATE_RATE\<close> of 0 has no defined result: it is
  \<open>None\<close>. The overload \<^verbatim>\<open>setFreq(float frequency)\<close> computes in single-precision
  floating point and has no counterpart here.

  \<^verbatim>\<open>((frequency * NUM_TABLE_CELLS)/UPDATE_RATE) << (F_BITS-8)\<close>, all in
  \<^verbatim>\<open>unsigned long\<close>.
\<close>

definition setFreq_n8 :: "u16 \<Rightarrow> u16 \<Rightarrow> u32 \<Rightarrow> oscil \<Rightarrow> oscil option" where
  "setFreq_n8 NUM_TABLE_CELLS UPDATE_RATE frequency s =
     (if UPDATE_RATE = 0 then None
      else Some (s\<lparr>phase_increment_fractional :=
        push_bit (F_BITS - 8) ((frequency * ucast NUM_TABLE_CELLS) div ucast UPDATE_RATE)\<rparr>))"

text \<open>
  \<^verbatim>\<open>setFreq(unsigned int frequency)\<close>:
  \<^verbatim>\<open>(((unsigned long)frequency * NUM_TABLE_CELLS)/UPDATE_RATE) << F_BITS\<close>.
\<close>

definition setFreq :: "u16 \<Rightarrow> u16 \<Rightarrow> u16 \<Rightarrow> oscil \<Rightarrow> oscil option" where
  "setFreq NUM_TABLE_CELLS UPDATE_RATE frequency s =
     (if UPDATE_RATE = 0 then None
      else Some (s\<lparr>phase_increment_fractional :=
        push_bit F_BITS ((ucast frequency * ucast NUM_TABLE_CELLS) div ucast UPDATE_RATE)\<rparr>))"

text \<open>\<^verbatim>\<open>phaseIncFromFreq(unsigned int frequency)\<close> returns the same expression.\<close>

definition phaseIncFromFreq :: "u16 \<Rightarrow> u16 \<Rightarrow> u16 \<Rightarrow> u32 option" where
  "phaseIncFromFreq NUM_TABLE_CELLS UPDATE_RATE frequency =
     (if UPDATE_RATE = 0 then None
      else Some (push_bit F_BITS
        ((ucast frequency * ucast NUM_TABLE_CELLS) div ucast UPDATE_RATE)))"

text \<open>\<^verbatim>\<open>setPhaseInc(unsigned long phaseinc_fractional)\<close>\<close>

definition setPhaseInc :: "u32 \<Rightarrow> oscil \<Rightarrow> oscil" where
  "setPhaseInc phaseinc_fractional s =
     s\<lparr>phase_increment_fractional := phaseinc_fractional\<rparr>"

subsection \<open>Runs of calls and the configuration\<close>

text \<open>
  \<open>next_n N k s\<close> calls \<^verbatim>\<open>next()\<close> \<open>k\<close> times in a row, as the audio interrupt does,
  and collects the samples in the order of the calls.
\<close>

fun next_n :: "u16 \<Rightarrow> nat \<Rightarrow> oscil \<Rightarrow> (prog_char list \<times> oscil) option" where
  "next_n NUM_TABLE_CELLS 0 s = Some ([], s)"
| "next_n NUM_TABLE_CELLS (Suc k) s =
     (case oscil_next NUM_TABLE_CELLS s of
        None \<Rightarrow> None
      | Some (c, s') \<Rightarrow>
          (case next_n NUM_TABLE_CELLS k s' of
             None \<Rightarrow> None
           | Some (cs, s'') \<Rightarrow> Some (c # cs, s'')))"

text \<open>
  The table length has to be a power of two (of those an \<^verbatim>\<open>unsigned int\<close> holds),
  and the table has to have that many cells.
\<close>

definition is_pow2 :: "u16 \<Rightarrow> bool" where
  "is_pow2 n = (\<exists>k \<in> set [0..<16]. n = 2 ^ k)"

definition table_ok :: "u16 \<Rightarrow> oscil \<Rightarrow> bool" where
  "table_ok NUM_TABLE_CELLS s = (length (table s) = unat NUM_TABLE_CELLS)"

subsection \<open>Two concrete oscillators\<close>

text \<open>
  An oscillator over the eight-cell table 0, ..., 7 that starts at phase 0 and steps
  by one cell per call, and one over a 256-cell table whose increment is still 0.
\<close>

definition ramp8 :: oscil where
  "ramp8 = \<lparr>phase_fractional = 0, phase_increment_fractional = 65536,
            table = [0, 1, 2, 3, 4, 5, 6, 7]\<rparr>"

definition ramp256 :: oscil where
  "ramp256 = \<lparr>phase_fractional = 0, phase_increment_fractional = 0,
              table = map of_nat [0..<256]\<rparr>"

section \<open>Words as numbers\<close>

lemma pow2_lt_65536: "k < 16 \<Longrightarrow> (2::nat) ^ k < 65536"
proof -
  assume "k < 16"
  then have "(2::nat) ^ k < 2 ^ 16" by (rule power_strict_increasing) simp
  then show ?thesis by simp
qed

lemma pow2_dvd_65536: "k < 16 \<Longrightarrow> (2::nat) ^ k dvd 65536"
proof -
  assume "k < 16"
  then have "k \<le> 16" by simp
  then have "(2::nat) ^ k dvd 2 ^ 16" by (rule le_imp_power_dvd)
  then show ?thesis by simp
qed

lemma unat_pow2_16: "k < 16 \<Longrightarrow> unat (2 ^ k :: u16) = 2 ^ k"
proof -
  assume k: "k < 16"
  have "unat (2 ^ k :: u16) = unat (of_nat (2 ^ k) :: u16)" by simp
  also have "\<dots> = 2 ^ k mod 65536" by (simp only: unat_of_nat len_bit0 len_num1 One_nat_def) simp
  also have "\<dots> = 2 ^ k" using pow2_lt_65536[OF k] by simp
  finally show ?thesis .
qed

lemma unat_ucast_16_32: "unat (ucast (x :: u16) :: u32) = unat x"
proof -
  have "unat x < 2 ^ 16" using unsigned_less[of x] by simp
  then have "unat x < 2 ^ 32" by simp
  then show ?thesis by (simp add: unsigned_ucast_eq take_bit_nat_eq_self)
qed

lemma unat_and_mask: "unat ((x :: 'a::len word) AND mask k) = unat x mod 2 ^ k"
proof -
  have "unat (x AND mask k) = unat (take_bit k x)" by (simp only: take_bit_eq_mask)
  also have "\<dots> = take_bit k (unat x)" by (simp only: unsigned_take_bit_eq)
  also have "\<dots> = unat x mod 2 ^ k" by (simp only: take_bit_eq_mod)
  finally show ?thesis .
qed

lemma unat_drop_bit_16: "unat (drop_bit 16 (x :: u32)) = unat x div 65536"
proof -
  have "drop_bit 16 x = x div 65536" by (simp add: drop_bit_eq_div)
  then show ?thesis by (simp add: unat_div)
qed

lemma mask_add_pow2_16: "k < 16 \<Longrightarrow> (i + 2 ^ k :: u16) AND mask k = i AND mask k"
proof -
  assume k: "k < 16"
  have "unat ((i + 2 ^ k) AND mask k) = ((unat i + 2 ^ k) mod 65536) mod 2 ^ k"
    using k by (simp add: unat_and_mask unat_word_ariths unat_pow2_16)
  also have "\<dots> = (unat i + 2 ^ k) mod 2 ^ k" using pow2_dvd_65536[OF k] by (rule mod_mod_cancel)
  also have "\<dots> = unat (i AND mask k)" by (simp add: unat_and_mask)
  finally show ?thesis by (simp only: word_unat_eq_iff)
qed

lemma unat_drop16_mask: "unat (drop_bit 16 (x::u32) AND mask k) = unat x div 65536 mod 2 ^ k"
  by (simp only: unat_and_mask unat_drop_bit_16)

section \<open>Masked indices\<close>

lemma is_pow2_exp: "is_pow2 n \<Longrightarrow> \<exists>k<16. n = 2 ^ k"
  by (auto simp: is_pow2_def)

lemma is_pow2_nonzero: "is_pow2 n \<Longrightarrow> n \<noteq> 0"
proof -
  assume "is_pow2 n"
  then obtain k where k: "k < 16" "n = 2 ^ k" using is_pow2_exp by blast
  have "unat n = 2 ^ k" using k by (simp add: unat_pow2_16)
  then have "unat n \<noteq> 0" by simp
  then show ?thesis by (simp add: unat_eq_0)
qed

lemma is_pow2_8: "is_pow2 8"
  unfolding is_pow2_def by (rule bexI[of _ 3]) simp_all

lemma is_pow2_256: "is_pow2 256"
  unfolding is_pow2_def by (rule bexI[of _ 8]) simp_all

lemma mask_of_pow2_16: "k < 16 \<Longrightarrow> (2 ^ k - 1 :: u16) = mask k"
  by (simp add: mask_eq_exp_minus_1)

lemma mask_of_pow2_32: "k < 16 \<Longrightarrow> (ucast (2 ^ k - 1 :: u16) :: u32) = mask k"
proof -
  assume k: "k < 16"
  have "(ucast (2 ^ k - 1 :: u16) :: u32) = ucast (mask k :: u16)"
    by (simp add: mask_eq_exp_minus_1)
  also have "\<dots> = mask (min LENGTH(16) k)" by (rule ucast_mask_eq)
  also have "\<dots> = mask k" using k by (simp add: min_def)
  finally show ?thesis .
qed

lemma masked_index32_less:
  assumes "n \<noteq> 0"
  shows "unat ((x::u32) AND ucast (n - 1 :: u16)) < unat n"
proof -
  have "x AND ucast (n - 1) \<le> ucast (n - 1)" by (rule word_and_le1)
  then have "unat (x AND ucast (n - 1)) \<le> unat (ucast (n - 1 :: u16) :: u32)"
    by (simp add: word_le_nat_alt)
  also have "\<dots> = unat (n - 1)" by (rule unat_ucast_16_32)
  also have "\<dots> < unat n" using assms by (simp add: unat_minus_one unat_gt_0)
  finally show ?thesis .
qed

lemma masked_index16_less:
  assumes "n \<noteq> 0"
  shows "unat ((x::u16) AND (n - 1)) < unat n"
proof -
  have "x AND (n - 1) \<le> n - 1" by (rule word_and_le1)
  then have "unat (x AND (n - 1)) \<le> unat (n - 1)"
    by (simp add: word_le_nat_alt)
  also have "\<dots> < unat n" using assms by (simp add: unat_minus_one unat_gt_0)
  finally show ?thesis .
qed

lemma masked_index32_arith:
  assumes "is_pow2 n"
  shows "unat (drop_bit 16 (x::u32) AND ucast (n - 1)) = (unat x div 65536) mod unat n"
proof -
  from assms obtain k where k: "k < 16" "n = 2 ^ k" using is_pow2_exp by blast
  have "unat (drop_bit 16 x AND ucast (n - 1)) = unat (drop_bit 16 x AND mask k)"
    using k by (simp only: mask_of_pow2_32)
  also have "\<dots> = unat x div 65536 mod 2 ^ k" by (rule unat_drop16_mask)
  also have "\<dots> = unat x div 65536 mod unat n" using k by (simp only: unat_pow2_16)
  finally show ?thesis .
qed

lemma masked_index16_arith:
  assumes "is_pow2 n"
  shows "unat ((i::u16) AND (n - 1)) = unat i mod unat n"
proof -
  from assms obtain k where k: "k < 16" "n = 2 ^ k" using is_pow2_exp by blast
  have "unat (i AND (n - 1)) = unat (i AND mask k)"
    using k by (simp only: mask_of_pow2_16)
  also have "\<dots> = unat i mod 2 ^ k" by (rule unat_and_mask)
  also have "\<dots> = unat i mod unat n" using k by (simp only: unat_pow2_16)
  finally show ?thesis .
qed

lemma atIndex_index_period:
  assumes "is_pow2 n"
  shows "atIndex_index n (i + n) = atIndex_index n i"
proof -
  from assms obtain k where k: "k < 16" "n = 2 ^ k" using is_pow2_exp by blast
  show ?thesis
    unfolding atIndex_index_def using k mask_add_pow2_16[OF k(1), of i] by (simp only: mask_of_pow2_16)
qed

lemma incrementPhase_fields [simp]:
  "phase_fractional (incrementPhase s) = phase_fractional s + phase_increment_fractional s"
  "phase_increment_fractional (incrementPhase s) = phase_increment_fractional s"
  "table (incrementPhase s) = table s"
  by (simp_all add: incrementPhase_def)

lemma oscil_next_total:
  assumes "n \<noteq> 0" and "table_ok n s"
  shows "oscil_next n s =
    Some (table s ! unat (readTable_index n (incrementPhase s)), incrementPhase s)"
proof -
  have "unat (readTable_index n (incrementPhase s)) < length (table s)"
    using assms masked_index32_less[OF assms(1)] by (simp add: readTable_index_def table_ok_def)
  then show ?thesis
    by (simp add: oscil_next_def readTable_def pgm_read_byte_near_def Let_def)
qed

lemma next_n_closed_form:
  assumes "n \<noteq> 0" and "table_ok n s"
  shows "next_n n k s =
    Some (map (\<lambda>j. table s ! unat (drop_bit 16
                 (phase_fractional s + of_nat (Suc j) * phase_increment_fractional s)
                   AND ucast (n - 1))) [0..<k],
          s\<lparr>phase_fractional := phase_fractional s + of_nat k * phase_increment_fractional s\<rparr>)"
  using assms(2)
proof (induction k arbitrary: s)
  case 0
  then show ?case by simp
next
  case (Suc k)
  let ?s1 = "incrementPhase s"
  have ok1: "table_ok n ?s1" using Suc.prems by (simp add: table_ok_def)
  have step: "oscil_next n s = Some (table s ! unat (readTable_index n ?s1), ?s1)"
    using assms(1) Suc.prems by (rule oscil_next_total)
  have ih: "next_n n k ?s1 =
    Some (map (\<lambda>j. table ?s1 ! unat (drop_bit 16
                 (phase_fractional ?s1 + of_nat (Suc j) * phase_increment_fractional ?s1)
                   AND ucast (n - 1))) [0..<k],
          ?s1\<lparr>phase_fractional := phase_fractional ?s1 + of_nat k * phase_increment_fractional ?s1\<rparr>)"
    using ok1 by (rule Suc.IH)
  have unfolded: "next_n n (Suc k) s =
    Some (table s ! unat (readTable_index n ?s1) #
          map (\<lambda>j. table ?s1 ! unat (drop_bit 16
                 (phase_fractional ?s1 + of_nat (Suc j) * phase_increment_fractional ?s1)
                   AND ucast (n - 1))) [0..<k],
          ?s1\<lparr>phase_fractional := phase_fractional ?s1 + of_nat k * phase_increment_fractional ?s1\<rparr>)"
    by (simp only: next_n.simps step ih option.case prod.case)
  show ?case
    by (simp only: unfolded map_upt_Suc)
       (simp add: readTable_index_def F_BITS_def incrementPhase_def algebra_simps del: upt_Suc)
qed

lemma unat_of_nat_mult32: "unat (of_nat a * w :: u32) = (a * unat w) mod 4294967296"
proof -
  have "unat (of_nat a * w :: u32) = (unat (of_nat a :: u32) * unat w) mod 4294967296"
    by (simp add: unat_word_ariths)
  also have "unat (of_nat a :: u32) = a mod 4294967296"
    by (simp add: unat_of_nat)
  finally show ?thesis by (simp only: mod_mult_left_eq)
qed

lemma step_index_arith: "((a * 65536) mod 4294967296) div 65536 mod 8 = a mod (8::nat)"
proof -
  have "(a * 65536) mod 4294967296 = (65536 * a) mod (65536 * 65536)" by (simp add: mult.commute)
  also have "\<dots> = 65536 * (a mod 65536)" by (rule mod_mult_mult1)
  finally have "((a * 65536) mod 4294967296) div 65536 = a mod 65536" by simp
  moreover have "(8::nat) dvd 65536" by simp
  ultimately show ?thesis by (simp only: mod_mod_cancel)
qed

lemma table_ok_ramp8: "table_ok 8 ramp8"
  by (simp add: table_ok_def ramp8_def)

section \<open>Sample production\<close>

text \<open>
  Claim C1. For every oscillator state, \<^verbatim>\<open>next()\<close> first adds the phase increment
  to the stored phase, as unsigned 32-bit numbers with wrap-around, and then returns
  the table entry at \<^verbatim>\<open>(phase >> 16) & (N-1)\<close> of the new phase. Nothing else
  of the object changes. For a table length that is a power of two and a table of
  that length, the entry read is the one at \<open>(phase div 2^16) mod N\<close>.
\<close>

theorem next_advances_then_reads:
  "oscil_next n s =
     map_option (\<lambda>c. (c, s\<lparr>phase_fractional := phase_fractional s + phase_increment_fractional s\<rparr>))
       (pgm_read_byte_near (table s)
          (unat (drop_bit 16 (phase_fractional s + phase_increment_fractional s) AND ucast (n - 1))))
   \<and> unat (phase_fractional s + phase_increment_fractional s)
       = (unat (phase_fractional s) + unat (phase_increment_fractional s)) mod 2 ^ 32
   \<and> (is_pow2 n \<and> table_ok n s \<longrightarrow>
        oscil_next n s =
          Some (table s ! ((unat (phase_fractional s + phase_increment_fractional s) div 2 ^ 16)
                            mod unat n),
                s\<lparr>phase_fractional := phase_fractional s + phase_increment_fractional s\<rparr>))"
proof (intro conjI impI)
  show "oscil_next n s =
     map_option (\<lambda>c. (c, s\<lparr>phase_fractional := phase_fractional s + phase_increment_fractional s\<rparr>))
       (pgm_read_byte_near (table s)
          (unat (drop_bit 16 (phase_fractional s + phase_increment_fractional s) AND ucast (n - 1))))"
    by (simp add: oscil_next_def readTable_def readTable_index_def incrementPhase_def
                  F_BITS_def Let_def split: option.splits)
next
  show "unat (phase_fractional s + phase_increment_fractional s)
       = (unat (phase_fractional s) + unat (phase_increment_fractional s)) mod 2 ^ 32"
    by (simp add: unat_word_ariths)
next
  assume a: "is_pow2 n \<and> table_ok n s"
  then have nz: "n \<noteq> 0" by (simp add: is_pow2_nonzero)
  have "oscil_next n s =
    Some (table s ! unat (readTable_index n (incrementPhase s)), incrementPhase s)"
    using nz a by (simp add: oscil_next_total)
  moreover have "unat (readTable_index n (incrementPhase s))
     = (unat (phase_fractional s + phase_increment_fractional s) div 2 ^ 16) mod unat n"
    using a by (simp add: readTable_index_def F_BITS_def masked_index32_arith)
  ultimately show "oscil_next n s =
          Some (table s ! ((unat (phase_fractional s + phase_increment_fractional s) div 2 ^ 16)
                            mod unat n),
                s\<lparr>phase_fractional := phase_fractional s + phase_increment_fractional s\<rparr>)"
    by (simp add: incrementPhase_def)
qed

theorem next_advances_then_reads_witness:
  "is_pow2 8 \<and> table_ok 8 ramp8 \<and>
   oscil_next 8 ramp8 = Some (1, ramp8\<lparr>phase_fractional := 65536\<rparr>)"
  using next_advances_then_reads[of 8 ramp8] is_pow2_8 table_ok_ramp8
  by (simp add: ramp8_def pgm_read_byte_near_def)

text \<open>
  Claim C2 says that from phase 0 with increment \<^verbatim>\<open>1<<16\<close> over the table
  0, ..., 7 the calls return 0, 1, 2, ... . The phase is advanced before the table is
  read, so the first call already returns the entry at index 1.
\<close>

theorem scenario_first_sample_counterexample:
  "map_option fst (next_n 8 10 ramp8) \<noteq> Some [0, 1, 2, 3, 4, 5, 6, 7, 0, 1]"
  by code_simp

lemma ramp8_nth: "m < 8 \<Longrightarrow> [0, 1, 2, 3, 4, 5, 6, 7 :: prog_char] ! m = of_nat m"
proof -
  assume "m < 8"
  then have "m \<in> {0, 1, 2, 3, 4, 5, 6, 7}" by auto
  then show ?thesis by auto
qed

text \<open>
  Claim C2, amended. In that scenario the successive calls return
  1, 2, 3, 4, 5, 6, 7, 0, 1, 2, ...: call number \<open>j + 1\<close> returns the table entry
  at index \<open>(j + 1) mod 8\<close>, and after \<open>k\<close> calls the phase is \<open>k\<close> table steps.
\<close>

theorem scenario_samples:
  "next_n 8 k ramp8 =
     Some (map (\<lambda>j. of_nat (Suc j mod 8)) [0..<k],
           ramp8\<lparr>phase_fractional := of_nat k * 65536\<rparr>)"
proof -
  have nz: "(8::u16) \<noteq> 0" by simp
  have idx: "unat (drop_bit 16 (of_nat a * 65536 :: u32) AND ucast (8 - 1 :: u16)) = a mod 8" for a
  proof -
    have "unat (drop_bit 16 (of_nat a * 65536 :: u32) AND ucast (8 - 1 :: u16))
        = (unat (of_nat a * 65536 :: u32) div 65536) mod unat (8 :: u16)"
      using is_pow2_8 by (rule masked_index32_arith)
    also have "unat (of_nat a * 65536 :: u32) = (a * unat (65536 :: u32)) mod 4294967296"
      by (rule unat_of_nat_mult32)
    also have "unat (65536 :: u32) = 65536" by simp
    also have "unat (8 :: u16) = 8" by simp
    finally show ?thesis by (simp only: step_index_arith)
  qed
  have "next_n 8 k ramp8 =
    Some (map (\<lambda>j. table ramp8 ! unat (drop_bit 16
                 (phase_fractional ramp8 + of_nat (Suc j) * phase_increment_fractional ramp8)
                   AND ucast (8 - 1 :: u16))) [0..<k],
          ramp8\<lparr>phase_fractional := phase_fractional ramp8 + of_nat k * phase_increment_fractional ramp8\<rparr>)"
    using nz table_ok_ramp8 by (rule next_n_closed_form)
  also have "phase_fractional ramp8 = 0" by (simp add: ramp8_def)
  also have "phase_increment_fractional ramp8 = 65536" by (simp add: ramp8_def)
  also have "table ramp8 = [0, 1, 2, 3, 4, 5, 6, 7]" by (simp add: ramp8_def)
  finally show ?thesis by (simp only: add_0 idx) (simp add: ramp8_nth)
qed

section \<open>Phase modulation and direct lookup\<close>

lemma sint_ucast_16_32: "sint (ucast (n :: u16) :: u32) = uint n"
proof -
  have "uint n < 2 ^ 16" using uint_bounded[of n] by simp
  then have "uint n < 2 ^ 31" by simp
  moreover have "- (2 ^ 31) \<le> uint n" by (rule order_trans[of _ 0]) simp_all
  ultimately have "signed_take_bit 31 (uint n) = uint n"
    by (simp add: signed_take_bit_int_eq_self)
  then show ?thesis by (simp add: signed_ucast_eq)
qed

lemma phMod_product_exact:
  assumes "- (2 ^ 31) \<le> sint m * uint n" and "sint m * uint n < 2 ^ 31"
  shows "sint ((m :: s32) * ucast (n :: u16)) = sint m * uint n"
proof -
  have "sint (m * ucast n) = signed_take_bit 31 (sint m * sint (ucast n :: u32))"
    by (simp add: sint_word_ariths)
  also have "\<dots> = signed_take_bit 31 (sint m * uint n)" by (simp only: sint_ucast_16_32)
  also have "\<dots> = sint m * uint n" using assms by (simp add: signed_take_bit_int_eq_self)
  finally show ?thesis .
qed

lemma phMod_position_int:
  "uint ((p :: u32) + (m :: s32) * ucast (n :: u16)) = (uint p + sint m * uint n) mod 2 ^ 32"
proof -
  have "p + m * ucast n = word_of_int (uint p + sint m * uint n)"
    by simp
  then have "uint (p + m * ucast n) = uint (word_of_int (uint p + sint m * uint n) :: u32)"
    by simp
  also have "\<dots> = (uint p + sint m * uint n) mod 2 ^ 32"
    by (simp only: uint_word_of_int_eq take_bit_eq_mod) simp
  finally show ?thesis .
qed

lemma phMod_total:
  assumes "n \<noteq> 0" and "table_ok n s"
  shows "phMod n s m =
    Some (table s ! unat (phMod_index n (incrementPhase s) m), incrementPhase s)"
proof -
  have "unat (phMod_index n (incrementPhase s) m) < length (table s)"
    using assms masked_index32_less[OF assms(1)] by (simp add: phMod_index_def table_ok_def)
  then show ?thesis
    by (simp add: phMod_def pgm_read_byte_near_def Let_def)
qed

lemma atIndex_total:
  assumes "n \<noteq> 0" and "table_ok n s"
  shows "atIndex n s i = Some (table s ! unat (atIndex_index n i), s)"
proof -
  have "unat (atIndex_index n i) < length (table s)"
    using assms masked_index16_less[OF assms(1)] by (simp add: atIndex_index_def table_ok_def)
  then show ?thesis
    by (simp add: atIndex_def pgm_read_byte_near_def)
qed

text \<open>
  Claim C3. For every state and every modulation argument \<open>m\<close>, \<^verbatim>\<open>phMod(m)\<close>
  advances the stored phase as \<^verbatim>\<open>next()\<close> does and returns the table entry at
  \<^verbatim>\<open>((phase + m * N) >> 16) & (N-1)\<close>, where the position \<open>phase + m * N\<close> is
  the sum of the integers taken modulo \<open>2^32\<close>. The modulation term is not stored:
  the resulting state is that of \<^verbatim>\<open>next()\<close>, and \<^verbatim>\<open>phMod(0)\<close> is \<^verbatim>\<open>next()\<close>.
\<close>

theorem phMod_offsets_read_only:
  "phMod n s m =
     map_option (\<lambda>c. (c, s\<lparr>phase_fractional := phase_fractional s + phase_increment_fractional s\<rparr>))
       (pgm_read_byte_near (table s)
          (unat (drop_bit 16 (phase_fractional s + phase_increment_fractional s + m * ucast n)
                   AND ucast (n - 1))))
   \<and> uint (phase_fractional s + phase_increment_fractional s + m * ucast n)
       = (uint (phase_fractional s + phase_increment_fractional s) + sint m * uint n) mod 2 ^ 32
   \<and> phMod n s 0 = oscil_next n s
   \<and> (is_pow2 n \<and> table_ok n s \<longrightarrow>
        phMod n s m =
          Some (table s !
                  ((unat (phase_fractional s + phase_increment_fractional s + m * ucast n) div 2 ^ 16)
                     mod unat n),
                s\<lparr>phase_fractional := phase_fractional s + phase_increment_fractional s\<rparr>)
        \<and> map_option snd (phMod n s m) = map_option snd (oscil_next n s))"
proof (intro conjI impI)
  show "phMod n s m =
     map_option (\<lambda>c. (c, s\<lparr>phase_fractional := phase_fractional s + phase_increment_fractional s\<rparr>))
       (pgm_read_byte_near (table s)
          (unat (drop_bit 16 (phase_fractional s + phase_increment_fractional s + m * ucast n)
                   AND ucast (n - 1))))"
    by (simp add: phMod_def phMod_index_def incrementPhase_def F_BITS_def Let_def
             split: option.splits)
next
  show "uint (phase_fractional s + phase_increment_fractional s + m * ucast n)
       = (uint (phase_fractional s + phase_increment_fractional s) + sint m * uint n) mod 2 ^ 32"
    by (rule phMod_position_int)
next
  show "phMod n s 0 = oscil_next n s"
    by (simp add: phMod_def phMod_index_def oscil_next_def readTable_def readTable_index_def)
next
  assume a: "is_pow2 n \<and> table_ok n s"
  then have nz: "n \<noteq> 0" by (simp add: is_pow2_nonzero)
  have "phMod n s m =
    Some (table s ! unat (phMod_index n (incrementPhase s) m), incrementPhase s)"
    using nz a by (simp add: phMod_total)
  moreover have "unat (phMod_index n (incrementPhase s) m)
     = (unat (phase_fractional s + phase_increment_fractional s + m * ucast n) div 2 ^ 16) mod unat n"
    using a by (simp add: phMod_index_def F_BITS_def masked_index32_arith)
  ultimately show "phMod n s m =
          Some (table s !
                  ((unat (phase_fractional s + phase_increment_fractional s + m * ucast n) div 2 ^ 16)
                     mod unat n),
                s\<lparr>phase_fractional := phase_fractional s + phase_increment_fractional s\<rparr>)"
    by (simp add: incrementPhase_def)
next
  assume a: "is_pow2 n \<and> table_ok n s"
  then have nz: "n \<noteq> 0" by (simp add: is_pow2_nonzero)
  show "map_option snd (phMod n s m) = map_option snd (oscil_next n s)"
    using nz a by (simp add: phMod_total oscil_next_total)
qed

theorem phMod_offsets_read_only_witness:
  "is_pow2 8 \<and> table_ok 8 ramp8 \<and>
   phMod 8 ramp8 16384 = Some (3, ramp8\<lparr>phase_fractional := 65536\<rparr>) \<and>
   phMod 8 ramp8 (- 16384) = Some (7, ramp8\<lparr>phase_fractional := 65536\<rparr>) \<and>
   map_option snd (phMod 8 ramp8 16384) = map_option snd (oscil_next 8 ramp8)"
  using phMod_offsets_read_only[of 8 ramp8 16384] phMod_offsets_read_only[of 8 ramp8 "- 16384"]
    is_pow2_8 table_ok_ramp8
  by (simp add: ramp8_def pgm_read_byte_near_def oscil_next_def readTable_def
        readTable_index_def incrementPhase_def F_BITS_def Let_def)

text \<open>
  Claim C4. \<^verbatim>\<open>atIndex(i)\<close> returns the table entry at \<^verbatim>\<open>i & (N-1)\<close> and leaves the
  object as it is; for a table length \<open>N\<close> that is a power of two,
  \<^verbatim>\<open>atIndex(i + N)\<close>, with \<open>i + N\<close> computed in 16 bits, is \<^verbatim>\<open>atIndex(i)\<close>.
\<close>

theorem atIndex_pure_periodic:
  "atIndex n s i =
     map_option (\<lambda>c. (c, s)) (pgm_read_byte_near (table s) (unat (i AND (n - 1))))
   \<and> (is_pow2 n \<longrightarrow> atIndex n s (i + n) = atIndex n s i)
   \<and> (is_pow2 n \<and> table_ok n s \<longrightarrow>
        atIndex n s i = Some (table s ! (unat i mod unat n), s))"
proof (intro conjI impI)
  show "atIndex n s i =
     map_option (\<lambda>c. (c, s)) (pgm_read_byte_near (table s) (unat (i AND (n - 1))))"
    by (simp add: atIndex_def atIndex_index_def split: option.splits)
next
  assume "is_pow2 n"
  then show "atIndex n s (i + n) = atIndex n s i"
    by (simp add: atIndex_def atIndex_index_period)
next
  assume a: "is_pow2 n \<and> table_ok n s"
  then have nz: "n \<noteq> 0" by (simp add: is_pow2_nonzero)
  have "unat (atIndex_index n i) = unat i mod unat n"
    using a by (simp add: atIndex_index_def masked_index16_arith)
  then show "atIndex n s i = Some (table s ! (unat i mod unat n), s)"
    using nz a by (simp add: atIndex_total)
qed

theorem atIndex_pure_periodic_witness:
  "is_pow2 8 \<and> table_ok 8 ramp8 \<and> atIndex 8 ramp8 (65533 + 8) = atIndex 8 ramp8 65533 \<and>
   atIndex 8 ramp8 65533 = Some (5, ramp8)"
  using atIndex_pure_periodic[of 8 ramp8 65533] is_pow2_8 table_ok_ramp8
  by (simp add: ramp8_def pgm_read_byte_near_def)

text \<open>
  Claim C9. With a table length that is a power of two and a table of that length,
  the index of every read done by \<^verbatim>\<open>next()\<close>, \<^verbatim>\<open>phMod()\<close> and \<^verbatim>\<open>atIndex()\<close>
  lies inside the table, for every phase, increment and argument; each of the three
  operations, and every run of \<^verbatim>\<open>next()\<close> calls, returns a result.
\<close>

theorem table_reads_in_bounds:
  assumes "is_pow2 n" and "table_ok n s"
  shows "unat (readTable_index n (incrementPhase s)) < length (table s)
       \<and> unat (phMod_index n (incrementPhase s) m) < length (table s)
       \<and> unat (atIndex_index n i) < length (table s)
       \<and> oscil_next n s \<noteq> None \<and> phMod n s m \<noteq> None \<and> atIndex n s i \<noteq> None
       \<and> next_n n k s \<noteq> None"
proof -
  have nz: "n \<noteq> 0" using assms(1) by (rule is_pow2_nonzero)
  have len: "length (table s) = unat n" using assms(2) by (simp add: table_ok_def)
  have "unat (readTable_index n (incrementPhase s)) < length (table s)"
    unfolding len readTable_index_def using nz by (rule masked_index32_less)
  moreover have "unat (phMod_index n (incrementPhase s) m) < length (table s)"
    unfolding len phMod_index_def using nz by (rule masked_index32_less)
  moreover have "unat (atIndex_index n i) < length (table s)"
    unfolding len atIndex_index_def using nz by (rule masked_index16_less)
  moreover have "oscil_next n s \<noteq> None" using nz assms(2) by (simp add: oscil_next_total)
  moreover have "phMod n s m \<noteq> None" using nz assms(2) by (simp add: phMod_total)
  moreover have "atIndex n s i \<noteq> None" using nz assms(2) by (simp add: atIndex_total)
  moreover have "next_n n k s \<noteq> None" using nz assms(2) by (simp add: next_n_closed_form)
  ultimately show ?thesis by simp
qed

theorem table_reads_in_bounds_witness:
  "is_pow2 8 \<and> table_ok 8 ramp8 \<and> oscil_next 8 ramp8 \<noteq> None \<and> phMod 8 ramp8 (- 1) \<noteq> None
   \<and> atIndex 8 ramp8 65535 \<noteq> None \<and> next_n 8 100 ramp8 \<noteq> None"
  using table_reads_in_bounds[OF is_pow2_8 table_ok_ramp8, of "- 1" 65535 100]
    is_pow2_8 table_ok_ramp8
  by simp

section \<open>Setting the frequency\<close>

lemma unat_push_bit32: "unat (push_bit k (x :: u32)) = (unat x * 2 ^ k) mod 4294967296"
proof -
  have "push_bit k x = x * 2 ^ k" by (rule push_bit_eq_mult)
  then have "unat (push_bit k x) = (unat x * unat (2 ^ k :: u32)) mod 4294967296"
    by (simp add: unat_word_ariths)
  also have "unat (2 ^ k :: u32) = 2 ^ k mod 4294967296"
    using unat_of_nat[where 'a=32, of "2 ^ k"] by simp
  finally show ?thesis by (simp only: mod_mult_right_eq)
qed

lemma unat_mult_16_16: "unat (ucast (f :: u16) * ucast (n :: u16) :: u32) = unat f * unat n"
proof -
  have f: "unat f < 65536" using unsigned_less[of f] by simp
  have n: "unat n < 65536" using unsigned_less[of n] by simp
  have "unat f * unat n \<le> 65535 * 65535"
    using f n by (intro mult_le_mono) simp_all
  then have small: "unat f * unat n < 4294967296" by simp
  have "unat (ucast f * ucast n :: u32) = (unat f * unat n) mod 4294967296"
    by (simp add: unat_word_ariths unat_ucast_16_32)
  then show ?thesis using small by simp
qed

lemma setFreq_n8_value:
  "unat (push_bit (F_BITS - 8) ((f * ucast (n :: u16)) div ucast (r :: u16)) :: u32)
     = (((unat f * unat n) mod 4294967296) div unat r * 256) mod 4294967296"
proof -
  have "unat ((f * ucast n) div ucast r :: u32) = ((unat f * unat n) mod 4294967296) div unat r"
    by (simp add: unat_div unat_word_ariths unat_ucast_16_32)
  then show ?thesis by (simp add: unat_push_bit32 F_BITS_def)
qed

lemma setFreq_value:
  "unat (push_bit F_BITS ((ucast (f :: u16) * ucast (n :: u16)) div ucast (r :: u16)) :: u32)
     = ((unat f * unat n) div unat r * 65536) mod 4294967296"
proof -
  have "unat ((ucast f * ucast n) div ucast r :: u32) = (unat f * unat n) div unat r"
    by (simp only: unat_div unat_mult_16_16 unat_ucast_16_32)
  then show ?thesis by (simp add: unat_push_bit32 F_BITS_def)
qed

text \<open>
  Claim C5. For every Q24n8 frequency, \<^verbatim>\<open>setFreq_n8\<close> stores
  \<^verbatim>\<open>((freq * N) / R) << 8\<close> as the phase increment: the product is taken modulo
  \<open>2^32\<close>, the division truncates, the shifted value is kept in 32 bits, and there
  is no check, so a result is stored for every argument. Phase and table stay as
  they are. The update rate is not 0.
\<close>

theorem setFreq_n8_wraps_and_truncates:
  assumes "r \<noteq> 0"
  shows "\<exists>s'. setFreq_n8 n r f s = Some s'
     \<and> unat (phase_increment_fractional s')
         = (((unat f * unat n) mod 2 ^ 32) div unat r * 2 ^ 8) mod 2 ^ 32
     \<and> phase_fractional s' = phase_fractional s \<and> table s' = table s"
  using assms by (simp add: setFreq_n8_def setFreq_n8_value)

theorem setFreq_n8_wraps_and_truncates_witness:
  "(16384 :: u16) \<noteq> 0 \<and>
   map_option phase_increment_fractional (setFreq_n8 256 16384 16777600 ramp256) = Some 1536"
proof -
  have r: "(16384 :: u16) \<noteq> 0" by simp
  from setFreq_n8_wraps_and_truncates[OF r, of 256 16777600 ramp256]
  obtain s' where s': "setFreq_n8 256 16384 16777600 ramp256 = Some s'"
    and v: "unat (phase_increment_fractional s')
         = (((unat (16777600 :: u32) * unat (256 :: u16)) mod 2 ^ 32) div unat (16384 :: u16) * 2 ^ 8) mod 2 ^ 32"
    by blast
  have "unat (phase_increment_fractional s') = unat (1536 :: u32)" using v by simp
  then have "phase_increment_fractional s' = 1536" by (simp only: word_unat_eq_iff)
  then show ?thesis using s' r by simp
qed

text \<open>
  Claim C6. For every frequency \<open>f\<close>, \<^verbatim>\<open>setPhaseInc(phaseIncFromFreq(f))\<close> stores
  the phase increment that \<^verbatim>\<open>setFreq(f)\<close> stores; from the same phase and table,
  whatever the increment was before, the two oscillators are equal afterwards, and
  so is every run of \<^verbatim>\<open>next()\<close> calls on them.
\<close>

theorem phaseIncFromFreq_setPhaseInc_is_setFreq:
  assumes "phase_fractional s = phase_fractional t" and "table s = table t"
  shows "map_option (\<lambda>i. setPhaseInc i s) (phaseIncFromFreq n r f) = setFreq n r f t
     \<and> map_option (\<lambda>i. phase_increment_fractional (setPhaseInc i s)) (phaseIncFromFreq n r f)
         = map_option phase_increment_fractional (setFreq n r f t)
     \<and> Option.bind (map_option (\<lambda>i. setPhaseInc i s) (phaseIncFromFreq n r f)) (next_n n k)
         = Option.bind (setFreq n r f t) (next_n n k)
     \<and> (r \<noteq> 0 \<longrightarrow> phaseIncFromFreq n r f \<noteq> None \<and> setFreq n r f t \<noteq> None)"
proof -
  have eq: "map_option (\<lambda>i. setPhaseInc i s) (phaseIncFromFreq n r f) = setFreq n r f t"
    using assms by (simp add: phaseIncFromFreq_def setFreq_def setPhaseInc_def)
  have "map_option (\<lambda>i. phase_increment_fractional (setPhaseInc i s)) (phaseIncFromFreq n r f)
         = map_option phase_increment_fractional (setFreq n r f t)"
    by (simp add: phaseIncFromFreq_def setFreq_def setPhaseInc_def)
  moreover have "r \<noteq> 0 \<longrightarrow> phaseIncFromFreq n r f \<noteq> None \<and> setFreq n r f t \<noteq> None"
    by (simp add: phaseIncFromFreq_def setFreq_def)
  ultimately show ?thesis by (simp only: eq)
qed

theorem phaseIncFromFreq_setPhaseInc_is_setFreq_witness:
  "phase_fractional (ramp8\<lparr>phase_increment_fractional := 7\<rparr>) = phase_fractional ramp8
   \<and> table (ramp8\<lparr>phase_increment_fractional := 7\<rparr>) = table ramp8
   \<and> map_option (\<lambda>i. setPhaseInc i (ramp8\<lparr>phase_increment_fractional := 7\<rparr>))
        (phaseIncFromFreq 8 16 6) = setFreq 8 16 6 ramp8
   \<and> setFreq 8 16 6 ramp8 = Some (ramp8\<lparr>phase_increment_fractional := 196608\<rparr>)"
  using phaseIncFromFreq_setPhaseInc_is_setFreq
          [of "ramp8\<lparr>phase_increment_fractional := 7\<rparr>" ramp8 8 16 6 0]
  by (simp add: setFreq_def F_BITS_def)

lemma truncation_compare:
  fixes A R :: nat
  assumes "0 < R"
  shows "A div R * 65536 \<le> (256 * A) div R * 256"
    and "(256 * A) div R * 256 < A div R * 65536 + 65536"
    and "(256 * A) div R * 256 * R \<le> A * 65536"
    and "A * 65536 < (A div R * 65536 + 65536) * R"
proof -
  have lo: "A div R * R \<le> A" by (rule div_times_less_eq_dividend)
  have hi: "A < R + A div R * R" using assms by (rule dividend_less_div_times)
  have "A div R * 256 * R \<le> 256 * A" using lo by simp
  then have a: "A div R * 256 \<le> (256 * A) div R"
    using assms by (simp only: less_eq_div_iff_mult_less_eq)
  then show "A div R * 65536 \<le> (256 * A) div R * 256" by simp
  have "256 * A < (A div R * 256 + 256) * R" using hi by (simp add: algebra_simps)
  then have b: "(256 * A) div R < A div R * 256 + 256"
    using assms by (simp only: div_less_iff_less_mult)
  then show "(256 * A) div R * 256 < A div R * 65536 + 65536" by simp
  have "(256 * A) div R * R \<le> 256 * A" by (rule div_times_less_eq_dividend)
  then show "(256 * A) div R * 256 * R \<le> A * 65536" by simp
  show "A * 65536 < (A div R * 65536 + 65536) * R" using hi by (simp add: algebra_simps)
qed

lemma unat_n8_of_int_freq: "unat (push_bit 8 (ucast (f :: u16)) :: u32) = unat f * 256"
proof -
  have "unat f < 65536" using unsigned_less[of f] by simp
  then have "unat f * 256 < 4294967296" by simp
  then show ?thesis by (simp add: unat_push_bit32 unat_ucast_16_32)
qed

text \<open>
  Claim C7, for the two integer setters (the \<^verbatim>\<open>float\<close> overload computes in
  floating point and is not modelled). Let \<open>f\<close> be an integer frequency for which
  neither the product \<open>(f * 256) * N\<close> nor the shift in \<^verbatim>\<open>setFreq_n8\<close> overflows.
  Then the increment of \<^verbatim>\<open>setFreq_n8(f << 8)\<close> is at least that of \<^verbatim>\<open>setFreq(f)\<close>
  and exceeds it by less than \<open>2^16\<close>, which is one unit of the quotient that
  \<^verbatim>\<open>setFreq\<close> truncates; the exact increment \<open>f * N * 2^16 / R\<close> lies between
  the two results and below \<^verbatim>\<open>setFreq\<close>'s plus \<open>2^16\<close>.
\<close>

theorem integer_setters_agree_up_to_truncation:
  assumes "r \<noteq> 0"
    and "unat f * 256 * unat n < 2 ^ 32"
    and "(unat f * 256 * unat n) div unat r * 256 < 2 ^ 32"
  shows "\<exists>s8 s16. setFreq_n8 n r (push_bit 8 (ucast f)) s = Some s8
     \<and> setFreq n r f s = Some s16
     \<and> unat (phase_increment_fractional s16) \<le> unat (phase_increment_fractional s8)
     \<and> unat (phase_increment_fractional s8) - unat (phase_increment_fractional s16) < 2 ^ 16
     \<and> unat (phase_increment_fractional s8) * unat r \<le> unat f * unat n * 2 ^ 16
     \<and> unat f * unat n * 2 ^ 16 < (unat (phase_increment_fractional s16) + 2 ^ 16) * unat r"
proof -
  let ?A = "unat f * unat n"
  let ?R = "unat r"
  have R: "0 < ?R" using assms(1) by (simp add: unat_gt_0)
  have p: "unat f * 256 * unat n = 256 * ?A" by simp
  have small8: "256 * ?A < 4294967296" using assms(2) by (simp add: p)
  have fit8: "(256 * ?A) div ?R * 256 < 4294967296" using assms(3) by (simp add: p)
  have fit16: "?A div ?R * 65536 < 4294967296"
    using truncation_compare(1)[OF R, of ?A] fit8 by simp
  have v8: "unat (push_bit (F_BITS - 8) ((push_bit 8 (ucast f) * ucast n) div ucast r) :: u32)
      = (256 * ?A) div ?R * 256"
    using small8 fit8 by (simp only: setFreq_n8_value unat_n8_of_int_freq p) simp
  have v16: "unat (push_bit F_BITS ((ucast f * ucast n) div ucast r) :: u32) = ?A div ?R * 65536"
    using fit16 by (simp only: setFreq_value) simp
  have s8: "setFreq_n8 n r (push_bit 8 (ucast f)) s =
      Some (s\<lparr>phase_increment_fractional :=
        push_bit (F_BITS - 8) ((push_bit 8 (ucast f) * ucast n) div ucast r)\<rparr>)"
    using assms(1) by (simp add: setFreq_n8_def)
  have s16: "setFreq n r f s =
      Some (s\<lparr>phase_increment_fractional :=
        push_bit F_BITS ((ucast f * ucast n) div ucast r)\<rparr>)"
    using assms(1) by (simp add: setFreq_def)
  show ?thesis
    using truncation_compare[OF R, of ?A]
    by (simp only: s8 s16) (simp add: v8 v16)
qed

theorem integer_setters_agree_up_to_truncation_witness:
  "(16384 :: u16) \<noteq> 0
   \<and> unat (3 :: u16) * 256 * unat (256 :: u16) < 2 ^ 32
   \<and> (unat (3 :: u16) * 256 * unat (256 :: u16)) div unat (16384 :: u16) * 256 < 2 ^ 32
   \<and> setFreq_n8 256 16384 (push_bit 8 (ucast (3 :: u16))) ramp256
       = Some (ramp256\<lparr>phase_increment_fractional := 3072\<rparr>)
   \<and> setFreq 256 16384 3 ramp256 = Some (ramp256\<lparr>phase_increment_fractional := 0\<rparr>)"
proof -
  have h1: "(16384 :: u16) \<noteq> 0" by simp
  have h2: "unat (3 :: u16) * 256 * unat (256 :: u16) < 2 ^ 32" by simp
  have h3: "(unat (3 :: u16) * 256 * unat (256 :: u16)) div unat (16384 :: u16) * 256 < 2 ^ 32"
    by simp
  have "setFreq_n8 256 16384 (push_bit 8 (ucast (3 :: u16))) ramp256
       = Some (ramp256\<lparr>phase_increment_fractional := 3072\<rparr>)
   \<and> setFreq 256 16384 3 ramp256 = Some (ramp256\<lparr>phase_increment_fractional := 0\<rparr>)"
    using integer_setters_agree_up_to_truncation[OF h1 h2 h3, of ramp256]
    by (simp add: setFreq_n8_def setFreq_def F_BITS_def)
  then show ?thesis using h1 h2 h3 by simp
qed

section \<open>Runs of calls\<close>

lemma table_ok_ramp256: "table_ok 256 ramp256"
  by (simp add: table_ok_def ramp256_def)

lemma next_n_phase:
  assumes "n \<noteq> 0" and "table_ok n s"
  shows "map_option (unat \<circ> phase_fractional \<circ> snd) (next_n n k s)
     = Some ((unat (phase_fractional s) + k * unat (phase_increment_fractional s)) mod 4294967296)"
proof -
  have "unat (phase_fractional s + of_nat k * phase_increment_fractional s)
      = (unat (phase_fractional s) + (k * unat (phase_increment_fractional s)) mod 4294967296)
          mod 4294967296"
    by (simp add: unat_word_ariths(1) unat_of_nat_mult32)
  also have "\<dots> = (unat (phase_fractional s) + k * unat (phase_increment_fractional s))
          mod 4294967296"
    by (rule mod_add_right_eq)
  finally show ?thesis
    using assms by (simp add: next_n_closed_form)
qed

lemma mod_add_mult_mod: "(a + k * (x mod M)) mod M = (a + k * x) mod (M::nat)"
proof -
  have "(a + k * (x mod M)) mod M = (a + (k * (x mod M)) mod M) mod M"
    by (simp only: mod_add_right_eq)
  also have "\<dots> = (a + (k * x) mod M) mod M" by (simp only: mod_mult_right_eq)
  also have "\<dots> = (a + k * x) mod M" by (simp only: mod_add_right_eq)
  finally show ?thesis .
qed

lemma ramp256_fields:
  "phase_fractional ramp256 = 0" "phase_increment_fractional ramp256 = 0"
  by (simp_all add: ramp256_def)

lemma one_cycle_arith:
  fixes F N R :: nat
  assumes "0 < R" and "F dvd R" and "R dvd F * N"
  shows "R div F * (F * N div R) = N"
proof -
  from assms(2) obtain q where q: "R = F * q" by (rule dvdE)
  from assms(3) obtain m where m: "F * N = R * m" by (rule dvdE)
  have F: "0 < F" using assms(1) q by (cases "F = 0") simp_all
  have "F * N = F * (q * m)" by (simp only: m q mult.assoc)
  then have N: "N = q * m" using F by simp
  have "R div F = q" using q F by simp
  moreover have "F * N div R = m" using m assms(1) by simp
  ultimately show ?thesis using N by simp
qed

text \<open>
  Claim C8, amended. After \<open>k\<close> calls of \<^verbatim>\<open>next()\<close> the phase has advanced by
  \<open>k\<close> times the phase increment, modulo \<open>2^32\<close>. If the frequency \<open>f\<close> divides
  the update rate \<open>R\<close> and \<open>R\<close> divides \<open>f * N\<close>, so that neither \<open>R / f\<close> nor
  the quotient \<open>f * N / R\<close> inside \<^verbatim>\<open>setFreq\<close> is truncated, then \<open>R / f\<close>
  calls after \<^verbatim>\<open>setFreq(f)\<close> advance the phase by \<^verbatim>\<open>N << 16\<close> modulo \<open>2^32\<close>.
\<close>

theorem phase_after_calls_and_full_cycle:
  assumes "n \<noteq> 0" and "table_ok n s"
  shows "map_option (unat \<circ> phase_fractional \<circ> snd) (next_n n k s)
       = Some ((unat (phase_fractional s) + k * unat (phase_increment_fractional s)) mod 2 ^ 32)
     \<and> (r \<noteq> 0 \<and> unat f dvd unat r \<and> unat r dvd unat f * unat n \<longrightarrow>
          map_option (unat \<circ> phase_fractional \<circ> snd)
            (Option.bind (setFreq n r f s) (next_n n (unat r div unat f)))
          = Some ((unat (phase_fractional s) + unat n * 2 ^ 16) mod 2 ^ 32))"
proof (intro conjI impI)
  show "map_option (unat \<circ> phase_fractional \<circ> snd) (next_n n k s)
       = Some ((unat (phase_fractional s) + k * unat (phase_increment_fractional s)) mod 2 ^ 32)"
    using next_n_phase[OF assms, of k] by simp
next
  assume h: "r \<noteq> 0 \<and> unat f dvd unat r \<and> unat r dvd unat f * unat n"
  let ?inc = "push_bit F_BITS ((ucast f * ucast n) div ucast r) :: u32"
  let ?s1 = "s\<lparr>phase_increment_fractional := ?inc\<rparr>"
  have R: "0 < unat r" using h by (simp add: unat_gt_0)
  have cyc: "unat r div unat f * (unat f * unat n div unat r) = unat n"
    using R h by (simp add: one_cycle_arith)
  have set: "setFreq n r f s = Some ?s1" using h by (simp add: setFreq_def)
  have ok1: "table_ok n ?s1" using assms(2) by (simp add: table_ok_def)
  have "map_option (unat \<circ> phase_fractional \<circ> snd) (next_n n (unat r div unat f) ?s1)
      = Some ((unat (phase_fractional s) + unat r div unat f * unat ?inc) mod 4294967296)"
    using next_n_phase[OF assms(1) ok1, of "unat r div unat f"] by simp
  also have "(unat (phase_fractional s) + unat r div unat f * unat ?inc) mod 4294967296
      = (unat (phase_fractional s)
          + unat r div unat f * ((unat f * unat n div unat r * 65536) mod 4294967296))
        mod 4294967296"
    by (simp only: setFreq_value)
  also have "\<dots> = (unat (phase_fractional s)
          + unat r div unat f * (unat f * unat n div unat r * 65536)) mod 4294967296"
    by (rule mod_add_mult_mod)
  also have "unat r div unat f * (unat f * unat n div unat r * 65536) = unat n * 65536"
    using cyc by (simp add: mult.assoc[symmetric])
  finally show "map_option (unat \<circ> phase_fractional \<circ> snd)
            (Option.bind (setFreq n r f s) (next_n n (unat r div unat f)))
          = Some ((unat (phase_fractional s) + unat n * 2 ^ 16) mod 2 ^ 32)"
    by (simp add: set)
qed

theorem phase_after_calls_and_full_cycle_witness:
  "(256 :: u16) \<noteq> 0 \<and> table_ok 256 ramp256 \<and> (16384 :: u16) \<noteq> 0
   \<and> unat (256 :: u16) dvd unat (16384 :: u16)
   \<and> unat (16384 :: u16) dvd unat (256 :: u16) * unat (256 :: u16)
   \<and> map_option (unat \<circ> phase_fractional \<circ> snd)
        (Option.bind (setFreq 256 16384 256 ramp256) (next_n 256 64)) = Some 16777216"
proof -
  have n: "(256 :: u16) \<noteq> 0" by simp
  have h: "(16384 :: u16) \<noteq> 0 \<and> unat (256 :: u16) dvd unat (16384 :: u16)
     \<and> unat (16384 :: u16) dvd unat (256 :: u16) * unat (256 :: u16)"
    by simp
  have q: "unat (16384 :: u16) div unat (256 :: u16) = 64" by simp
  have v: "(unat (phase_fractional ramp256) + unat (256 :: u16) * 2 ^ 16) mod 2 ^ 32 = 16777216"
    by (simp add: ramp256_fields)
  have "map_option (unat \<circ> phase_fractional \<circ> snd)
        (Option.bind (setFreq 256 16384 256 ramp256)
           (next_n 256 (unat (16384 :: u16) div unat (256 :: u16))))
      = Some ((unat (phase_fractional ramp256) + unat (256 :: u16) * 2 ^ 16) mod 2 ^ 32)"
    using phase_after_calls_and_full_cycle[OF n table_ok_ramp256, of 0 16384 256] h
    by blast
  then have "map_option (unat \<circ> phase_fractional \<circ> snd)
        (Option.bind (setFreq 256 16384 256 ramp256) (next_n 256 64)) = Some 16777216"
    by (simp only: q v)
  then show ?thesis using n h table_ok_ramp256 by simp
qed

text \<open>
  Claim C8 asks only that \<open>R / f\<close> divides evenly. With \<open>N = 256\<close>,
  \<open>R = 16384\<close> and \<open>f = 1\<close> it does, but \<^verbatim>\<open>setFreq(1)\<close> stores the increment
  \<^verbatim>\<open>(256 / 16384) << 16 = 0\<close>, and 16384 calls later the phase has not moved.
\<close>

theorem full_cycle_truncated_counterexample:
  "unat (1 :: u16) dvd unat (16384 :: u16)
   \<and> map_option (unat \<circ> phase_fractional \<circ> snd)
        (Option.bind (setFreq 256 16384 1 ramp256)
           (next_n 256 (unat (16384 :: u16) div unat (1 :: u16))))
      \<noteq> Some ((unat (phase_fractional ramp256) + unat (256 :: u16) * 2 ^ 16) mod 2 ^ 32)"
proof -
  have n: "(256 :: u16) \<noteq> 0" by simp
  have "setFreq 256 16384 1 ramp256
      = Some (ramp256\<lparr>phase_increment_fractional := phase_increment_fractional ramp256\<rparr>)"
    by (simp add: setFreq_def F_BITS_def ramp256_fields)
  then have set: "setFreq 256 16384 1 ramp256 = Some ramp256" by simp
  have q: "unat (16384 :: u16) div unat (1 :: u16) = 16384" by simp
  have "map_option (unat \<circ> phase_fractional \<circ> snd) (next_n 256 16384 ramp256)
     = Some ((unat (phase_fractional ramp256)
               + 16384 * unat (phase_increment_fractional ramp256)) mod 4294967296)"
    using n table_ok_ramp256 by (rule next_n_phase)
  then have run: "map_option (unat \<circ> phase_fractional \<circ> snd) (next_n 256 16384 ramp256) = Some 0"
    by (simp only: ramp256_fields) simp
  have lhs: "map_option (unat \<circ> phase_fractional \<circ> snd)
        (Option.bind (setFreq 256 16384 1 ramp256)
           (next_n 256 (unat (16384 :: u16) div unat (1 :: u16)))) = Some 0"
    by (simp only: set q Option.bind.simps run)
  have rhs: "(unat (phase_fractional ramp256) + unat (256 :: u16) * 2 ^ 16) mod 2 ^ 32 = 16777216"
    by (simp add: ramp256_fields)
  show ?thesis by (simp only: lhs rhs) simp
qed

end
